theory Spec2Isabelle
  imports Complex_Main "HOL-Library.Char_ord" "HOL-Library.List_Lexorder" "HOL-Library.Sublist"
    "HOL-Library.Multiset"
begin

section \<open>The result cache (class SimpleCache)\<close>

text \<open>
  \<^verbatim>\<open>SimpleCache\<close> keeps two dictionaries, \<^verbatim>\<open>_cache\<close> and \<^verbatim>\<open>_timestamps\<close>, and the
  field \<^verbatim>\<open>default_ttl\<close>. The clock \<^verbatim>\<open>time.time()\<close> is read once in \<^verbatim>\<open>get\<close> and once
  in \<^verbatim>\<open>set\<close>; the model takes that reading as the argument \<open>now\<close>, in seconds, as a
  real number. A dictionary subscript on a missing key raises \<^verbatim>\<open>KeyError\<close>. The method
  \<^verbatim>\<open>set\<close> is \<open>set_entry\<close> here and \<^verbatim>\<open>__init__\<close> is \<open>init\<close>; the argument \<^verbatim>\<open>ttl\<close> of
  \<^verbatim>\<open>set\<close>, an \<^verbatim>\<open>int\<close> or \<^verbatim>\<open>None\<close>, is an \<open>int option\<close>.
\<close>

datatype error = KeyError string | TypeError string | Exception string

record 'v SimpleCache =
  cache :: "string \<rightharpoonup> 'v"
  timestamps :: "string \<rightharpoonup> real"
  default_ttl :: int

definition init :: "int \<Rightarrow> 'v SimpleCache" where
  "init ttl = \<lparr>cache = Map.empty, timestamps = Map.empty, default_ttl = ttl\<rparr>"

text \<open>
  \<^verbatim>\<open>get\<close> returns the stored object on a hit and Python's \<^verbatim>\<open>None\<close> otherwise; the model
  returns \<open>Some v\<close> for the stored object \<open>v\<close> and \<open>None\<close> for \<^verbatim>\<open>None\<close>, together with
  the cache after the call.
\<close>

definition get :: "'v SimpleCache \<Rightarrow> real \<Rightarrow> string \<Rightarrow> error + ('v option \<times> 'v SimpleCache)" where
  "get s now key =
     (case cache s key of
        Some v \<Rightarrow>
          (case timestamps s key of
             None \<Rightarrow> Inl (KeyError key)
           | Some t0 \<Rightarrow>
               if now - t0 < real_of_int (default_ttl s) then Inr (Some v, s)
               else Inr (None, s\<lparr>cache := (cache s)(key := None),
                                  timestamps := (timestamps s)(key := None)\<rparr>))
      | None \<Rightarrow> Inr (None, s))"

definition set_entry :: "'v SimpleCache \<Rightarrow> real \<Rightarrow> string \<Rightarrow> 'v \<Rightarrow> int option \<Rightarrow> 'v SimpleCache" where
  "set_entry s now key val ttl =
     s\<lparr>cache := (cache s)(key \<mapsto> val), timestamps := (timestamps s)(key \<mapsto> now)\<rparr>"

definition clear :: "'v SimpleCache \<Rightarrow> 'v SimpleCache" where
  "clear s = s\<lparr>cache := Map.empty, timestamps := Map.empty\<rparr>"

text \<open>
  The two dictionaries always hold the same keys, so the subscript
  \<^verbatim>\<open>self._timestamps[key]\<close> in \<^verbatim>\<open>get\<close> never raises.
\<close>

definition cache_inv :: "'v SimpleCache \<Rightarrow> bool" where
  "cache_inv s = (dom (cache s) = dom (timestamps s))"

section \<open>Python values and \<^verbatim>\<open>json.dumps\<close>\<close>

text \<open>
  The values the program hands to \<^verbatim>\<open>json.dumps\<close>: \<^verbatim>\<open>None\<close>, booleans, integers, strings,
  lists and tuples (both become JSON arrays), dictionaries with string keys in insertion
  order, and \<open>PObj s\<close>, an object that the encoder does not know, with \<open>s\<close> its \<^verbatim>\<open>str()\<close>.
  Floats are left out: no claim depends on one. A character is a code point below 256.

  \<^verbatim>\<open>json.dumps\<close> is the standard library's encoder with its defaults (\<^verbatim>\<open>ensure_ascii=True\<close>,
  separators \<^verbatim>\<open>', '\<close> and \<^verbatim>\<open>': '\<close> without \<^verbatim>\<open>indent\<close>, and \<^verbatim>\<open>','\<close> and \<^verbatim>\<open>': '\<close> with it), and
  the three options the program uses: \<^verbatim>\<open>indent\<close>, \<^verbatim>\<open>sort_keys\<close> and \<^verbatim>\<open>default=str\<close>.
\<close>

datatype pyval =
    PNone
  | PBool bool
  | PInt int
  | PStr string
  | PList "pyval list"
  | PDict "(string \<times> pyval) list"
  | PObj string

text \<open>\<^verbatim>\<open>py_encode_basestring_ascii\<close>: everything outside the printable ASCII range is escaped.\<close>

definition hex_digit :: "nat \<Rightarrow> char" where
  "hex_digit n = ''0123456789abcdef'' ! (n mod 16)"

definition escape_char :: "char \<Rightarrow> string" where
  "escape_char c =
     (if c = CHR 0x22 then [CHR 0x5C, CHR 0x22]
      else if c = CHR 0x5C then [CHR 0x5C, CHR 0x5C]
      else if c = CHR 0x0A then [CHR 0x5C, CHR ''n'']
      else if c = CHR 0x0D then [CHR 0x5C, CHR ''r'']
      else if c = CHR 0x09 then [CHR 0x5C, CHR ''t'']
      else if c = CHR 0x08 then [CHR 0x5C, CHR ''b'']
      else if c = CHR 0x0C then [CHR 0x5C, CHR ''f'']
      else if 0x20 \<le> (of_char c :: nat) \<and> (of_char c :: nat) \<le> 0x7E then [c]
      else [CHR 0x5C, CHR ''u'', CHR ''0'', CHR ''0'',
            hex_digit (of_char c div 16), hex_digit (of_char c mod 16)])"

definition encode_basestring_ascii :: "string \<Rightarrow> string" where
  "encode_basestring_ascii s = [CHR 0x22] @ concat (map escape_char s) @ [CHR 0x22]"

text \<open>\<^verbatim>\<open>int.__repr__\<close>, decimal.\<close>

function str_nat :: "nat \<Rightarrow> string" where
  "str_nat n = (if n < 10 then [hex_digit n] else str_nat (n div 10) @ [hex_digit (n mod 10)])"
  by pat_completeness auto
termination
  by (relation "measure id") auto

definition str_int :: "int \<Rightarrow> string" where
  "str_int i = (if i < 0 then CHR ''-'' # str_nat (nat (- i)) else str_nat (nat i))"

text \<open>\<^verbatim>\<open>sep.join(parts)\<close>.\<close>

fun join :: "string \<Rightarrow> string list \<Rightarrow> string" where
  "join sep [] = []"
| "join sep [x] = x"
| "join sep (x # y # ys) = x @ sep @ join sep (y # ys)"

definition newline_indent :: "nat option \<Rightarrow> nat \<Rightarrow> string" where
  "newline_indent indent level =
     (case indent of None \<Rightarrow> [] | Some n \<Rightarrow> CHR 0x0A # replicate (n * level) (CHR '' ''))"

definition item_separator :: "nat option \<Rightarrow> string" where
  "item_separator indent = (case indent of None \<Rightarrow> '', '' | Some n \<Rightarrow> '','')"

lemma size_dict_entry:
  "(k, v) \<in> set kvs \<Longrightarrow> size v < Suc (size_list (size_prod (\<lambda>_. 0) size) kvs)"
  by (induction kvs) auto

function (sequential) encode :: "nat option \<Rightarrow> bool \<Rightarrow> nat \<Rightarrow> pyval \<Rightarrow> string" where
  "encode indent sort_keys level PNone = ''null''"
| "encode indent sort_keys level (PBool b) = (if b then ''true'' else ''false'')"
| "encode indent sort_keys level (PInt i) = str_int i"
| "encode indent sort_keys level (PStr s) = encode_basestring_ascii s"
| "encode indent sort_keys level (PObj s) = encode_basestring_ascii s"
| "encode indent sort_keys level (PList xs) =
     (if xs = [] then ''[]''
      else ''['' @ newline_indent indent (Suc level)
           @ join (item_separator indent @ newline_indent indent (Suc level))
                  (map (encode indent sort_keys (Suc level)) xs)
           @ newline_indent indent level @ '']'')"
| "encode indent sort_keys level (PDict kvs) =
     (if kvs = [] then ''{}''
      else ''{'' @ newline_indent indent (Suc level)
           @ join (item_separator indent @ newline_indent indent (Suc level))
                  (map (\<lambda>(k, v). encode_basestring_ascii k @ '': '' @ encode indent sort_keys (Suc level) v)
                       (if sort_keys then sort_key fst kvs else kvs))
           @ newline_indent indent level @ ''}'')"
  by pat_completeness auto
termination
proof (relation "measure (\<lambda>(indent, sort_keys, level, v). size v)", goal_cases)
  case 1
  show ?case by simp
next
  case (2 indent sort_keys level xs x)
  then show ?case by (simp add: size_list_estimation' less_Suc_eq_le)
next
  case (3 indent sort_keys level kvs kv k v)
  then have "(k, v) \<in> set kvs" by (simp split: if_splits)
  then show ?case using size_dict_entry by simp
qed


text \<open>
  Without \<^verbatim>\<open>default\<close> an unknown object makes \<^verbatim>\<open>json.dumps\<close> raise \<^verbatim>\<open>TypeError\<close>; with
  \<^verbatim>\<open>default=str\<close> it is encoded as the string \<^verbatim>\<open>str(o)\<close>.
\<close>

fun serializable :: "bool \<Rightarrow> pyval \<Rightarrow> bool" where
  "serializable dflt (PObj s) = dflt"
| "serializable dflt (PList xs) = list_all (serializable dflt) xs"
| "serializable dflt (PDict kvs) = list_all (serializable dflt) (map snd kvs)"
| "serializable dflt v = True"

definition dumps :: "nat option \<Rightarrow> bool \<Rightarrow> bool \<Rightarrow> pyval \<Rightarrow> error + string" where
  "dumps indent sort_keys default_str obj =
     (if serializable default_str obj then Inr (encode indent sort_keys 0 obj)
      else Inl (TypeError ''Object is not JSON serializable''))"

subsection \<open>\<^verbatim>\<open>SimpleCache._make_key\<close>\<close>

text \<open>
  \<^verbatim>\<open>key_str.encode()\<close> is UTF-8. \<^verbatim>\<open>hashlib.md5(...).hexdigest()\<close> is the standard library's;
  the model takes it as the parameter \<open>md5_hexdigest\<close>, a function from the bytes to the
  digest's hexadecimal string.
\<close>

definition str_encode :: "string \<Rightarrow> string" where
  "str_encode s =
     concat (map (\<lambda>c. if (of_char c :: nat) < 128 then [c]
                       else [char_of (192 + (of_char c :: nat) div 64),
                             char_of (128 + (of_char c :: nat) mod 64)]) s)"

definition make_key :: "(string \<Rightarrow> string) \<Rightarrow> pyval list \<Rightarrow> (string \<times> pyval) list \<Rightarrow> error + string" where
  "make_key md5_hexdigest args kwargs =
     (case dumps None True True (PList [PList args, PDict kwargs]) of
        Inl e \<Rightarrow> Inl e
      | Inr key_str \<Rightarrow> Inr (md5_hexdigest (str_encode key_str)))"

section \<open>The search tools\<close>

text \<open>
  \<^verbatim>\<open>_search_web_impl\<close> and \<^verbatim>\<open>_search_news_impl\<close>. The search backend (\<^verbatim>\<open>DDGS().text\<close>,
  \<^verbatim>\<open>DDGS().news\<close>) is a parameter: it returns the list of result dictionaries or raises.
  Every exception raised inside the \<^verbatim>\<open>try\<close> block, also one from \<^verbatim>\<open>json.dumps\<close>, is caught
  by the \<^verbatim>\<open>except\<close> clause; an exception raised there would propagate (\<open>Inl\<close>).
\<close>

type_synonym pydict = "(string \<times> pyval) list"

definition dict_get :: "pydict \<Rightarrow> string \<Rightarrow> pyval \<Rightarrow> pyval" where
  "dict_get d k dflt = (case map_of d k of Some v \<Rightarrow> v | None \<Rightarrow> dflt)"

fun str_error :: "error \<Rightarrow> string" where
  "str_error (KeyError k) = [CHR 0x27] @ k @ [CHR 0x27]"
| "str_error (TypeError m) = m"
| "str_error (Exception m) = m"

definition search_web_impl :: "(string \<Rightarrow> int \<Rightarrow> error + pydict list) \<Rightarrow> string \<Rightarrow> int \<Rightarrow> error + string" where
  "search_web_impl ddgs_text query max_results =
     (case (case ddgs_text query max_results of
              Inl e \<Rightarrow> Inl e
            | Inr results \<Rightarrow>
                if results = [] then
                  dumps None False False
                    (PDict [(''status'', PStr ''success''), (''results'', PList []),
                            (''message'', PStr ''No results found.'')])
                else
                  dumps (Some 2) False False
                    (PDict [(''status'', PStr ''success''), (''query'', PStr query),
                            (''results'', PList (map (\<lambda>result. PDict
                               [(''title'', dict_get result ''title'' (PStr ''No title'')),
                                (''url'', dict_get result ''href'' (PStr ''No URL'')),
                                (''snippet'', dict_get result ''body'' (PStr ''No description''))])
                               results))]))
      of Inl e \<Rightarrow>
           dumps (Some 2) False False
             (PDict [(''status'', PStr ''error''), (''query'', PStr query),
                     (''message'', PStr (''Search failed: '' @ str_error e))])
       | Inr s \<Rightarrow> Inr s)"

definition search_news_impl :: "(string \<Rightarrow> int \<Rightarrow> error + pydict list) \<Rightarrow> string \<Rightarrow> int \<Rightarrow> error + string" where
  "search_news_impl ddgs_news query max_results =
     (case (case ddgs_news query max_results of
              Inl e \<Rightarrow> Inl e
            | Inr results \<Rightarrow>
                if results = [] then
                  dumps None False False
                    (PDict [(''status'', PStr ''success''), (''results'', PList []),
                            (''message'', PStr ''No news found.'')])
                else
                  dumps (Some 2) False False
                    (PDict [(''status'', PStr ''success''), (''query'', PStr query),
                            (''results'', PList (map (\<lambda>result. PDict
                               [(''title'', dict_get result ''title'' (PStr ''No title'')),
                                (''url'', dict_get result ''url'' (PStr ''No URL'')),
                                (''snippet'', dict_get result ''body'' (PStr ''No description'')),
                                (''source'', dict_get result ''source'' (PStr ''Unknown'')),
                                (''date'', dict_get result ''date'' (PStr ''Unknown''))])
                               results))]))
      of Inl e \<Rightarrow>
           dumps (Some 2) False False
             (PDict [(''status'', PStr ''error''), (''query'', PStr query),
                     (''message'', PStr (''News search failed: '' @ str_error e))])
       | Inr s \<Rightarrow> Inr s)"

text \<open>The dictionary of the branch for an empty result list, with its message.\<close>

definition no_results :: "string \<Rightarrow> pyval" where
  "no_results message =
     PDict [(''status'', PStr ''success''), (''results'', PList []), (''message'', PStr message)]"

section \<open>The site crawler (\<^verbatim>\<open>_crawl_website_impl\<close>)\<close>

text \<open>
  What the crawler calls and the repository does not define is a parameter of the model,
  the record \<open>web\<close>:
  \<^item> \<open>fetch u\<close> is the first part of the inner \<^verbatim>\<open>try\<close> block for the URL \<open>u\<close>:
    \<^verbatim>\<open>client.get\<close>, \<^verbatim>\<open>raise_for_status\<close>, \<^verbatim>\<open>html.fromstring\<close> and the XPath queries. It
    raises (\<open>Inl\<close>) or returns the parsed document: the text nodes of \<^verbatim>\<open>//title\<close>, the text
    nodes of \<^verbatim>\<open>//body\<close> once scripts and styles are removed, and the \<^verbatim>\<open>href\<close> attribute of
    every anchor, in document order. A URL is fetched at most once in a crawl, so a
    function of the URL is enough.
  \<^item> \<open>urljoin\<close> and \<open>netloc\<close> are \<^verbatim>\<open>urllib.parse.urljoin\<close> and
    \<^verbatim>\<open>urllib.parse.urlparse(...).netloc\<close>; both raise \<^verbatim>\<open>ValueError\<close> on some malformed URLs.
  The construction of \<^verbatim>\<open>httpx.Client\<close>, with its two constant arguments, is taken to succeed.
  URLs are strings, \<^verbatim>\<open>max_pages\<close> is a Python \<^verbatim>\<open>int\<close> (any integer, also a negative one), the
  set \<^verbatim>\<open>visited\<close> is a set and the lists \<^verbatim>\<open>to_visit\<close> and \<^verbatim>\<open>pages\<close> are lists.
\<close>

record document =
  title_elem :: "string list"
  text_content :: "string list"
  hrefs :: "string list"

record web =
  fetch :: "string \<Rightarrow> error + document"
  urljoin :: "string \<Rightarrow> string \<Rightarrow> error + string"
  netloc :: "string \<Rightarrow> error + string"

record page_record =
  url :: string
  title :: string
  content_preview :: string

record crawl_state =
  visited :: "string set"
  to_visit :: "string list"
  pages :: "page_record list"

text \<open>\<^verbatim>\<open>str.strip()\<close>, \<^verbatim>\<open>str.lower()\<close>, \<^verbatim>\<open>str.startswith\<close> and \<^verbatim>\<open>p in s\<close> on code points below 256.\<close>

definition is_space :: "char \<Rightarrow> bool" where
  "is_space c = ((of_char c :: nat) \<in> {0x09, 0x0A, 0x0B, 0x0C, 0x0D, 0x1C, 0x1D, 0x1E, 0x1F, 0x20, 0x85, 0xA0})"

definition strip :: "string \<Rightarrow> string" where
  "strip s = rev (dropWhile is_space (rev (dropWhile is_space s)))"

definition lower_char :: "char \<Rightarrow> char" where
  "lower_char c =
     (let n = (of_char c :: nat)
      in if (0x41 \<le> n \<and> n \<le> 0x5A) \<or> (0xC0 \<le> n \<and> n \<le> 0xDE \<and> n \<noteq> 0xD7)
         then char_of (n + 0x20) else c)"

definition lower :: "string \<Rightarrow> string" where
  "lower s = map lower_char s"

fun contains :: "string \<Rightarrow> string \<Rightarrow> bool" where
  "contains p [] = (p = [])"
| "contains p (c # cs) = (prefix p (c # cs) \<or> contains p cs)"

definition is_web_url :: "string \<Rightarrow> bool" where
  "is_web_url u = (prefix ''http://'' u \<or> prefix ''https://'' u)"

definition skip_patterns :: "string list" where
  "skip_patterns = [''.pdf'', ''.jpg'', ''.png'', ''.gif'', ''.css'', ''.js'', ''#'', ''mailto:'', ''tel:'']"

text \<open>
  One pass of the \<^verbatim>\<open>for anchor in tree.xpath('//a[@href]')\<close> loop: \<open>Inr\<close> of the frontier
  after it, or \<open>Inl\<close> when \<^verbatim>\<open>urljoin\<close> or \<^verbatim>\<open>urlparse\<close> raises. \<^verbatim>\<open>urlparse\<close> is called only when
  \<^verbatim>\<open>same_domain\<close> is true (\<^verbatim>\<open>and\<close> evaluates its right operand only then).
\<close>

definition visit_anchor ::
  "web \<Rightarrow> string \<Rightarrow> bool \<Rightarrow> string \<Rightarrow> string set \<Rightarrow> string list \<Rightarrow> string \<Rightarrow> error + string list" where
  "visit_anchor w current_url same_domain base_domain vis frontier href =
     (case urljoin w current_url href of
        Inl e \<Rightarrow> Inl e
      | Inr full_url \<Rightarrow>
          if \<not> is_web_url full_url then Inr frontier
          else
            (case (if same_domain
                   then (case netloc w full_url of Inl e \<Rightarrow> Inl e | Inr d \<Rightarrow> Inr (d \<noteq> base_domain))
                   else Inr False) of
               Inl e \<Rightarrow> Inl e
             | Inr other_domain \<Rightarrow>
                 if other_domain then Inr frontier
                 else if list_ex (\<lambda>p. contains p (lower full_url)) skip_patterns then Inr frontier
                 else if full_url \<notin> vis \<and> full_url \<notin> set frontier then Inr (frontier @ [full_url])
                 else Inr frontier))"

text \<open>
  The whole \<^verbatim>\<open>for\<close> loop. An exception leaves the loop for the \<^verbatim>\<open>except\<close> clause, which
  only continues the \<^verbatim>\<open>while\<close> loop: the links appended so far stay in the frontier.
\<close>

fun visit_anchors ::
  "web \<Rightarrow> string \<Rightarrow> bool \<Rightarrow> string \<Rightarrow> string set \<Rightarrow> string list \<Rightarrow> string list \<Rightarrow> string list" where
  "visit_anchors w current_url same_domain base_domain vis frontier [] = frontier"
| "visit_anchors w current_url same_domain base_domain vis frontier (href # rest) =
     (case visit_anchor w current_url same_domain base_domain vis frontier href of
        Inl e \<Rightarrow> frontier
      | Inr frontier' \<Rightarrow> visit_anchors w current_url same_domain base_domain vis frontier' rest)"

definition page_of :: "string \<Rightarrow> document \<Rightarrow> page_record" where
  "page_of current_url doc =
     \<lparr>url = current_url,
      title = (case title_elem doc of [] \<Rightarrow> ''No title'' | t # _ \<Rightarrow> strip t),
      content_preview =
        take 2000 (join '' '' (filter (\<lambda>t. t \<noteq> []) (map strip (text_content doc))))\<rparr>"

text \<open>
  The \<^verbatim>\<open>while\<close> loop: its condition, its body, and the loop. The body pops the head of the
  frontier; \<^verbatim>\<open>pop(0)\<close> on an empty list cannot happen under the condition.
\<close>

definition crawl_continues :: "int \<Rightarrow> crawl_state \<Rightarrow> bool" where
  "crawl_continues max_pages s = (to_visit s \<noteq> [] \<and> int (length (pages s)) < max_pages)"

definition crawl_iteration :: "web \<Rightarrow> bool \<Rightarrow> string \<Rightarrow> crawl_state \<Rightarrow> crawl_state" where
  "crawl_iteration w same_domain base_domain s =
     (case to_visit s of
        [] \<Rightarrow> s
      | current_url # rest \<Rightarrow>
          if current_url \<in> visited s then s\<lparr>to_visit := rest\<rparr>
          else
            (case fetch w current_url of
               Inl e \<Rightarrow> s\<lparr>visited := insert current_url (visited s), to_visit := rest\<rparr>
             | Inr doc \<Rightarrow>
                 s\<lparr>visited := insert current_url (visited s),
                   to_visit := visit_anchors w current_url same_domain base_domain
                                 (insert current_url (visited s)) rest (hrefs doc),
                   pages := pages s @ [page_of current_url doc]\<rparr>))"

lemma crawl_iteration_decreases:
  assumes "crawl_continues max_pages s"
  shows "(nat (max_pages - int (length (pages (crawl_iteration w same_domain base_domain s))))
            < nat (max_pages - int (length (pages s))))
         \<or> (pages (crawl_iteration w same_domain base_domain s) = pages s
            \<and> length (to_visit (crawl_iteration w same_domain base_domain s)) < length (to_visit s))"
proof (cases "to_visit s")
  case Nil
  then show ?thesis using assms by (simp add: crawl_continues_def)
next
  case (Cons current_url rest)
  then show ?thesis using assms
    by (auto simp: crawl_iteration_def crawl_continues_def split: sum.splits)
qed

function crawl_loop :: "web \<Rightarrow> int \<Rightarrow> bool \<Rightarrow> string \<Rightarrow> crawl_state \<Rightarrow> crawl_state" where
  "crawl_loop w max_pages same_domain base_domain s =
     (if crawl_continues max_pages s
      then crawl_loop w max_pages same_domain base_domain (crawl_iteration w same_domain base_domain s)
      else s)"
  by pat_completeness auto
termination
proof (relation "measures [\<lambda>(w, max_pages, same_domain, base_domain, s). nat (max_pages - int (length (pages s))),
                           \<lambda>(w, max_pages, same_domain, base_domain, s). length (to_visit s)]", goal_cases)
  case 1
  show ?case by simp
next
  case (2 w max_pages same_domain base_domain s)
  then show ?case
    using crawl_iteration_decreases [of max_pages s w same_domain base_domain] by auto
qed

text \<open>The state after at most \<open>n\<close> iterations of the loop, for statements about every step.\<close>

fun crawl_steps :: "web \<Rightarrow> int \<Rightarrow> bool \<Rightarrow> string \<Rightarrow> nat \<Rightarrow> crawl_state \<Rightarrow> crawl_state" where
  "crawl_steps w max_pages same_domain base_domain 0 s = s"
| "crawl_steps w max_pages same_domain base_domain (Suc n) s =
     (if crawl_continues max_pages s
      then crawl_steps w max_pages same_domain base_domain n (crawl_iteration w same_domain base_domain s)
      else s)"

text \<open>
  The function: the seed gets the \<^verbatim>\<open>https://\<close> prefix when it has no web scheme,
  \<^verbatim>\<open>urlparse(url).netloc\<close> is outside the inner \<^verbatim>\<open>try\<close> and its exception reaches the outer
  \<^verbatim>\<open>except\<close>, which reports the (already prefixed) URL. \<open>crawl\<close> is the \<^verbatim>\<open>try\<close> block up to
  the \<^verbatim>\<open>return\<close>, \<open>crawl_website_impl\<close> the function with its two \<^verbatim>\<open>json.dumps\<close> calls.
\<close>

definition normalize_seed :: "string \<Rightarrow> string" where
  "normalize_seed u = (if \<not> is_web_url u then ''https://'' @ u else u)"

definition initial_state :: "string \<Rightarrow> crawl_state" where
  "initial_state seed = \<lparr>visited = {}, to_visit = [seed], pages = []\<rparr>"

definition crawl :: "web \<Rightarrow> string \<Rightarrow> int \<Rightarrow> bool \<Rightarrow> error + crawl_state" where
  "crawl w u max_pages same_domain =
     (case netloc w (normalize_seed u) of
        Inl e \<Rightarrow> Inl e
      | Inr base_domain \<Rightarrow>
          Inr (crawl_loop w max_pages same_domain base_domain (initial_state (normalize_seed u))))"

definition page_json :: "page_record \<Rightarrow> pyval" where
  "page_json p = PDict [(''url'', PStr (url p)), (''title'', PStr (title p)),
                        (''content_preview'', PStr (content_preview p))]"

definition crawl_website_impl :: "web \<Rightarrow> string \<Rightarrow> int \<Rightarrow> bool \<Rightarrow> error + string" where
  "crawl_website_impl w u max_pages same_domain =
     (case (case crawl w u max_pages same_domain of
              Inl e \<Rightarrow> Inl e
            | Inr s \<Rightarrow>
                dumps (Some 2) False False
                  (PDict [(''status'', PStr ''success''), (''start_url'', PStr (normalize_seed u)),
                          (''pages_crawled'', PInt (int (length (pages s)))),
                          (''pages'', PList (map page_json (pages s)))]))
      of Inl e \<Rightarrow>
           dumps (Some 2) False False
             (PDict [(''status'', PStr ''error''), (''url'', PStr (normalize_seed u)),
                     (''message'', PStr (''Crawl failed: '' @ str_error e))])
       | Inr r \<Rightarrow> Inr r)"

text \<open>
  A link passes the filters of the \<^verbatim>\<open>for\<close> loop when it has a web scheme and its lower-cased
  text contains none of the skip patterns. \<open>non_content\<close> is the kind of URL the
  specification names: one with a fragment, a \<^verbatim>\<open>mailto:\<close> or \<^verbatim>\<open>tel:\<close> URL, or one that ends
  in one of the six file extensions.
\<close>

definition link_ok :: "string \<Rightarrow> bool" where
  "link_ok u = (is_web_url u \<and> \<not> list_ex (\<lambda>p. contains p (lower u)) skip_patterns)"

definition non_content :: "string \<Rightarrow> bool" where
  "non_content u =
     (CHR ''#'' \<in> set u \<or> prefix ''mailto:'' u \<or> prefix ''tel:'' u
      \<or> list_ex (\<lambda>e. suffix e u) [''.pdf'', ''.jpg'', ''.png'', ''.gif'', ''.css'', ''.js''])"

subsection \<open>An example site\<close>

text \<open>
  A small site for the concrete instances of the theorems below. The page \<^verbatim>\<open>/\<close> links to
  \<^verbatim>\<open>/b\<close> (whose fetch fails), \<^verbatim>\<open>/c\<close>, another domain, a fragment, a mail address, a PDF,
  \<^verbatim>\<open>/data.json\<close> and \<^verbatim>\<open>/c#intro\<close>; \<^verbatim>\<open>/c\<close> links back to \<^verbatim>\<open>/\<close> and to \<^verbatim>\<open>/e\<close>. The two URL
  functions are tables that agree with \<^verbatim>\<open>urllib.parse\<close> on the links of this site.
\<close>

definition example_document :: "string list \<Rightarrow> document" where
  "example_document hs =
     \<lparr>title_elem = ['' Example ''], text_content = [''Hello'', ''  '', '' world ''], hrefs = hs\<rparr>"

definition example_home :: document where
  "example_home = example_document
     [''/b'', ''/c'', ''https://other.org/d'', ''#top'', ''mailto:a@example.com'',
      ''/doc.pdf'', ''/data.json'', ''/c#intro'', ''/b'']"

definition example_web :: web where
  "example_web =
     \<lparr>fetch = (\<lambda>u.
        if u = ''https://example.com/'' \<or> u = ''https://example.com/#top'' then Inr example_home
        else if u = ''https://example.com/c'' then Inr (example_document [''/'', ''/e''])
        else if u = ''https://example.com/e'' then Inr (example_document [])
        else Inl (Exception ''connection refused'')),
      urljoin = (\<lambda>current_url href.
        if prefix ''http'' href \<or> prefix ''mailto:'' href then Inr href
        else if prefix ''/'' href then Inr (''https://example.com'' @ href)
        else if prefix ''#'' href then Inr (takeWhile (\<lambda>c. c \<noteq> CHR ''#'') current_url @ href)
        else Inl (Exception ''ValueError'')),
      netloc = (\<lambda>u.
        if prefix ''https://example.com/'' u then Inr ''example.com''
        else if prefix ''https://other.org/'' u then Inr ''other.org''
        else Inr [])\<rparr>"

text \<open>A site where every request fails.\<close>

definition dead_web :: web where
  "dead_web =
     \<lparr>fetch = (\<lambda>u. Inl (Exception ''connection refused'')),
      urljoin = (\<lambda>current_url href. Inr href),
      netloc = (\<lambda>u. Inr ''example.com'')\<rparr>"

section \<open>Properties of the cache\<close>

lemma cache_inv_init: "cache_inv (init ttl)"
  by (simp add: cache_inv_def init_def)

lemma cache_inv_set_entry: "cache_inv s \<Longrightarrow> cache_inv (set_entry s now k v t)"
  by (simp add: cache_inv_def set_entry_def)

lemma cache_inv_clear: "cache_inv (clear s)"
  by (simp add: cache_inv_def clear_def)

lemma cache_inv_get:
  assumes "cache_inv s"
  shows "\<exists>r s'. get s now k = Inr (r, s') \<and> cache_inv s'"
proof (cases "cache s k")
  case None
  then show ?thesis using assms by (simp add: get_def)
next
  case (Some v)
  then have "k \<in> dom (timestamps s)"
    using assms by (auto simp: cache_inv_def)
  then obtain t0 where t0: "timestamps s k = Some t0" by auto
  show ?thesis
  proof (cases "now - t0 < real_of_int (default_ttl s)")
    case True
    then show ?thesis using Some t0 assms by (simp add: get_def)
  next
    case False
    have "dom ((cache s)(k := None)) = dom ((timestamps s)(k := None))"
      using assms by (simp add: cache_inv_def)
    then show ?thesis using Some t0 False by (simp add: get_def cache_inv_def)
  qed
qed

text \<open>
  C1. The \<^verbatim>\<open>ttl\<close> argument of \<^verbatim>\<open>set\<close> has no effect: for every key, value and ttl
  argument the cache after \<^verbatim>\<open>set(k, v, t)\<close> is the cache after \<^verbatim>\<open>set(k, v)\<close>; it holds
  \<open>v\<close> and the clock reading under \<open>k\<close>, \<^verbatim>\<open>default_ttl\<close> is unchanged, every later
  \<^verbatim>\<open>get\<close> returns the same from both, and a later \<^verbatim>\<open>get(k)\<close> is a hit exactly when the
  age of the entry is below \<^verbatim>\<open>default_ttl\<close>, whatever \<open>t\<close> was.
\<close>

theorem set_entry_ttl_ignored:
  "set_entry s now k v t = set_entry s now k v None
   \<and> cache (set_entry s now k v t) k = Some v
   \<and> timestamps (set_entry s now k v t) k = Some now
   \<and> default_ttl (set_entry s now k v t) = default_ttl s
   \<and> get (set_entry s now k v t) now' k' = get (set_entry s now k v None) now' k'
   \<and> (\<exists>s'. get (set_entry s now k v t) now' k =
          Inr (if now' - now < real_of_int (default_ttl s) then Some v else None, s'))"
  by (simp add: set_entry_def get_def)

text \<open>
  C4. When the cache holds \<open>v\<close> under \<open>k\<close>, inserted at time \<open>t0\<close>: a \<^verbatim>\<open>get(k)\<close> at a
  time \<open>now\<close> with \<open>now - t0 \<ge> default_ttl\<close> returns \<^verbatim>\<open>None\<close> and leaves a cache with no
  entry and no timestamp for \<open>k\<close> (all other keys as they were); and \<^verbatim>\<open>get(k)\<close> is a hit
  (it returns \<open>v\<close> and leaves the cache as it was) if and only if
  \<open>now - t0 < default_ttl\<close>, a strict inequality.
\<close>

theorem get_expiry:
  assumes "cache s k = Some v" and "timestamps s k = Some t0"
  shows "(real_of_int (default_ttl s) \<le> now - t0 \<longrightarrow>
            (\<exists>s'. get s now k = Inr (None, s') \<and> cache s' k = None \<and> timestamps s' k = None
                 \<and> k \<notin> dom (cache s')
                 \<and> (\<forall>k'. k' \<noteq> k \<longrightarrow> cache s' k' = cache s k' \<and> timestamps s' k' = timestamps s k')))
         \<and> ((get s now k = Inr (Some v, s)) = (now - t0 < real_of_int (default_ttl s)))
         \<and> ((\<exists>s'. get s now k = Inr (None, s')) = (\<not> now - t0 < real_of_int (default_ttl s)))"
  using assms by (auto simp: get_def)

theorem get_expiry_witness:
  "cache (set_entry (init 300) 1000 ''k'' (7::nat) None) ''k'' = Some 7
   \<and> timestamps (set_entry (init 300) 1000 ''k'' (7::nat) None) ''k'' = Some 1000
   \<and> real_of_int (default_ttl (set_entry (init 300) 1000 ''k'' (7::nat) None)) \<le> 1300 - 1000
   \<and> (\<exists>s'. get (set_entry (init 300) 1000 ''k'' (7::nat) None) 1300 ''k'' = Inr (None, s')
          \<and> cache s' ''k'' = None \<and> timestamps s' ''k'' = None)
   \<and> get (set_entry (init 300) 1000 ''k'' (7::nat) None) 1299 ''k''
       = Inr (Some 7, set_entry (init 300) 1000 ''k'' 7 None)"
proof -
  let ?s = "set_entry (init 300) 1000 ''k'' (7::nat) None"
  have c: "cache ?s ''k'' = Some 7" and t: "timestamps ?s ''k'' = Some 1000"
    and d: "default_ttl ?s = 300"
    by (simp_all add: set_entry_def init_def)
  from get_expiry [OF c t, of 1300] d
  have a: "\<exists>s'. get ?s 1300 ''k'' = Inr (None, s') \<and> cache s' ''k'' = None \<and> timestamps s' ''k'' = None"
    by auto
  from get_expiry [OF c t, of 1299] d
  have b: "get ?s 1299 ''k'' = Inr (Some 7, ?s)"
    by simp
  show ?thesis using a b c t d by simp
qed

text \<open>
  C5. \<^verbatim>\<open>set(k, v)\<close> followed by \<^verbatim>\<open>get(k)\<close> at a time less than \<^verbatim>\<open>default_ttl\<close> after the
  insertion returns exactly \<open>v\<close> (and leaves the cache as it was); and \<^verbatim>\<open>set\<close> overwrites
  whatever was stored under \<open>k\<close>: after it the value is \<open>v\<close> and the timestamp the new
  clock reading, an earlier \<^verbatim>\<open>set\<close> on the same key leaves no trace, and other keys are
  untouched.
\<close>

theorem set_then_get:
  "(now' - now < real_of_int (default_ttl s) \<longrightarrow>
      get (set_entry s now k v t) now' k = Inr (Some v, set_entry s now k v t))
   \<and> cache (set_entry s now k v t) k = Some v
   \<and> timestamps (set_entry s now k v t) k = Some now
   \<and> set_entry (set_entry s t1 k v1 ttl1) now k v t = set_entry s now k v t
   \<and> (\<forall>k'. k' \<noteq> k \<longrightarrow> cache (set_entry s now k v t) k' = cache s k'
                     \<and> timestamps (set_entry s now k v t) k' = timestamps s k')"
  by (simp add: set_entry_def get_def)

theorem set_then_get_witness:
  "(1010::real) - 1000 < real_of_int (default_ttl (init 300 :: nat SimpleCache))
   \<and> get (set_entry (init 300) 1000 ''k'' (7::nat) (Some 5)) 1010 ''k''
       = Inr (Some 7, set_entry (init 300) 1000 ''k'' 7 (Some 5))
   \<and> cache (set_entry (set_entry (init 300) 990 ''k'' (3::nat) None) 1000 ''k'' 7 None) ''k'' = Some 7"
proof -
  have h: "(1010::real) - 1000 < real_of_int (default_ttl (init 300 :: nat SimpleCache))"
    by (simp add: init_def)
  from set_then_get [of 1010 1000 "init 300 :: nat SimpleCache" "''k''" 7 "Some 5"] h
  have a: "get (set_entry (init 300) 1000 ''k'' (7::nat) (Some 5)) 1010 ''k''
       = Inr (Some 7, set_entry (init 300) 1000 ''k'' 7 (Some 5))"
    by blast
  from set_then_get [of 1010 1000 "set_entry (init 300) 990 ''k'' (3::nat) None" "''k''" 7 None]
  have b: "cache (set_entry (set_entry (init 300) 990 ''k'' (3::nat) None) 1000 ''k'' 7 None) ''k'' = Some 7"
    by blast
  show ?thesis using h a b by simp
qed

section \<open>Properties of the cache key and of the search tools\<close>

lemma replicate_2: "replicate 2 x = [x, x]"
  by (simp add: numeral_2_eq_2)

lemmas json_eval = dumps_def str_int_def newline_indent_def item_separator_def hex_digit_def
  encode_basestring_ascii_def escape_char_def replicate_2

lemma serializable_default: "serializable True v"
  by (induction v) (auto simp: list_all_iff)

lemma filter_same_key:
  "distinct (map fst xs) \<Longrightarrow> k \<in> set xs \<Longrightarrow> filter (\<lambda>x. fst k = fst x) xs = [k]"
proof (induction xs)
  case Nil
  then show ?case by simp
next
  case (Cons x xs)
  show ?case
  proof (cases "k = x")
    case True
    have "\<forall>y \<in> set xs. fst y \<noteq> fst x"
      using Cons.prems(1) by (auto simp: image_iff)
    then have "filter (\<lambda>y. fst x = fst y) xs = []"
      by (auto simp: filter_empty_conv)
    then show ?thesis using True by simp
  next
    case False
    then have k: "k \<in> set xs" using Cons.prems(2) by simp
    then have "fst k \<noteq> fst x"
      using Cons.prems(1) by (auto simp: image_iff)
    then show ?thesis using Cons.IH k Cons.prems(1) by simp
  qed
qed

lemma sort_key_bindings:
  assumes "distinct (map fst kw1)" "distinct (map fst kw2)" "map_of kw1 = map_of kw2"
  shows "sort_key fst kw1 = sort_key fst kw2"
proof -
  have s: "set kw1 = set kw2"
    using assms by (simp add: map_of_inject_set)
  have d1: "distinct kw1" and d2: "distinct kw2"
    using assms(1,2) by (simp_all add: distinct_map)
  have m: "mset kw2 = mset kw1"
    using s d1 d2 by (simp add: set_eq_iff_mset_eq_distinct)
  have d3: "distinct (map fst (sort_key fst kw1))"
    using assms(1) by (simp add: distinct_map)
  show ?thesis
  proof (rule properties_for_sort_key [symmetric])
    show "mset (sort_key fst kw1) = mset kw2" using m by simp
    show "sorted (map fst (sort_key fst kw1))" by simp
    fix k assume k: "k \<in> set (sort_key fst kw1)"
    then have "k \<in> set kw2" using s by simp
    then have "filter (\<lambda>x. fst k = fst x) kw2 = [k]"
      using assms(2) by (rule filter_same_key [rotated])
    moreover have "filter (\<lambda>x. fst k = fst x) (sort_key fst kw1) = [k]"
      using d3 k by (rule filter_same_key)
    ultimately show "filter (\<lambda>x. fst k = fst x) (sort_key fst kw1) = filter (\<lambda>x. fst k = fst x) kw2"
      by simp
  qed
qed

lemma make_key_total: "make_key h args kwargs =
    Inr (h (str_encode (encode None True 0 (PList [PList args, PDict kwargs]))))"
  by (simp add: make_key_def dumps_def serializable_default list_all_iff)

text \<open>
  C6. \<^verbatim>\<open>_make_key\<close> returns a key for every input, a function of the arguments alone, and
  the order of the keyword arguments does not matter: two calls whose keyword arguments
  give the same names the same values (\<open>map_of kw1 = map_of kw2\<close>; a name occurs once in a
  call) return the same key for the same positional arguments. The order of the
  positional arguments does matter: \<^verbatim>\<open>_make_key(1, 2)\<close> hashes the text \<^verbatim>\<open>[[1, 2], {}]\<close> and
  \<^verbatim>\<open>_make_key(2, 1)\<close> the different text \<^verbatim>\<open>[[2, 1], {}]\<close>, so the two keys are equal only if
  the hash function collides on these two texts.
\<close>

theorem make_key_kwargs_order:
  assumes "distinct (map fst kw1)" and "distinct (map fst kw2)" and "map_of kw1 = map_of kw2"
  shows "make_key h args kw1 = make_key h args kw2
         \<and> (\<exists>key. make_key h args kw1 = Inr key)
         \<and> make_key h [PInt 1, PInt 2] [] = Inr (h ''[[1, 2], {}]'')
         \<and> make_key h [PInt 2, PInt 1] [] = Inr (h ''[[2, 1], {}]'')
         \<and> (make_key h [PInt 1, PInt 2] [] = make_key h [PInt 2, PInt 1] [])
             = (h ''[[1, 2], {}]'' = h ''[[2, 1], {}]'')"
proof -
  have "sort_key fst kw1 = sort_key fst kw2"
    using assms by (rule sort_key_bindings)
  moreover have "(kw1 = []) = (kw2 = [])"
    using assms(3) by (metis map_of_eq_empty_iff)
  ultimately have "encode None True 0 (PList [PList args, PDict kw1])
      = encode None True 0 (PList [PList args, PDict kw2])"
    by simp
  then have "make_key h args kw1 = make_key h args kw2"
    by (simp add: make_key_total)
  moreover have "make_key h [PInt 1, PInt 2] [] = Inr (h ''[[1, 2], {}]'')"
    and "make_key h [PInt 2, PInt 1] [] = Inr (h ''[[2, 1], {}]'')"
    by (simp_all add: make_key_total str_encode_def json_eval)
  ultimately show ?thesis
    by (simp add: make_key_total)
qed

theorem make_key_kwargs_order_witness:
  "distinct (map fst [(''a'', PInt 1), (''b'', PInt 2)])
   \<and> distinct (map fst [(''b'', PInt 2), (''a'', PInt 1)])
   \<and> map_of [(''a'', PInt 1), (''b'', PInt 2)] = map_of [(''b'', PInt 2), (''a'', PInt 1)]
   \<and> (\<forall>h. make_key h [] [(''a'', PInt 1), (''b'', PInt 2)]
            = make_key h [] [(''b'', PInt 2), (''a'', PInt 1)])
   \<and> make_key id [PInt 1, PInt 2] [] \<noteq> make_key id [PInt 2, PInt 1] []"
proof -
  have d1: "distinct (map fst [(''a'', PInt 1), (''b'', PInt 2)])"
    and d2: "distinct (map fst [(''b'', PInt 2), (''a'', PInt 1)])"
    by simp_all
  have m: "map_of [(''a'', PInt 1), (''b'', PInt 2)] = map_of [(''b'', PInt 2), (''a'', PInt 1)]"
    by (rule ext) simp
  have "\<forall>h. make_key h [] [(''a'', PInt 1), (''b'', PInt 2)]
            = make_key h [] [(''b'', PInt 2), (''a'', PInt 1)]"
    using make_key_kwargs_order [OF d1 d2 m] by blast
  moreover have "make_key id [PInt 1, PInt 2] [] \<noteq> make_key id [PInt 2, PInt 1] []"
    using make_key_kwargs_order [OF d1 d2 m, of id] by simp
  ultimately show ?thesis using d1 d2 m by blast
qed

text \<open>
  Every branch of the two search tools returns a JSON object whose first member is
  \<^verbatim>\<open>"status"\<close>, with the value \<^verbatim>\<open>"success"\<close> or \<^verbatim>\<open>"error"\<close>; the branches with results and
  the error branch are written with \<^verbatim>\<open>indent=2\<close>, the branch for an empty result list
  without it.
\<close>

lemma search_web_impl_envelope:
  "\<exists>ind st members. search_web_impl backend query n
       = Inr (encode ind False 0 (PDict ((''status'', PStr st) # members)))
     \<and> (st = ''success'' \<or> st = ''error'')
     \<and> (ind = Some 2 \<or> ind = None \<and> backend query n = Inr [])"
proof -
  let ?err = "\<lambda>e. [(''query'', PStr query), (''message'', PStr (''Search failed: '' @ str_error e))]"
  let ?ok = "\<lambda>results. PDict [(''status'', PStr ''success''), (''query'', PStr query),
                      (''results'', PList (map (\<lambda>result. PDict
                         [(''title'', dict_get result ''title'' (PStr ''No title'')),
                          (''url'', dict_get result ''href'' (PStr ''No URL'')),
                          (''snippet'', dict_get result ''body'' (PStr ''No description''))])
                         results))]"
  have failed: "\<exists>ind st members. Inr (encode (Some 2) False 0 (PDict ((''status'', PStr ''error'') # ?err e)))
       = (Inr (encode ind False 0 (PDict ((''status'', PStr st) # members))) :: error + string)
     \<and> (st = ''success'' \<or> st = ''error'')
     \<and> (ind = Some 2 \<or> ind = None \<and> backend query n = Inr [])" for e
    by blast
  show ?thesis
  proof (cases "backend query n")
    case (Inl e)
    then have eq: "search_web_impl backend query n
        = Inr (encode (Some 2) False 0 (PDict ((''status'', PStr ''error'') # ?err e)))"
      by (simp add: search_web_impl_def dumps_def del: encode.simps)
    show ?thesis unfolding eq by (rule failed)
  next
    case (Inr results)
    show ?thesis
    proof (cases "results = []")
      case True
      then have eq: "search_web_impl backend query n
          = Inr (encode None False 0 (PDict ((''status'', PStr ''success'')
                   # [(''results'', PList []), (''message'', PStr ''No results found.'')])))"
        using Inr by (simp add: search_web_impl_def dumps_def del: encode.simps)
      show ?thesis unfolding eq using Inr True by blast
    next
      case False
      show ?thesis
      proof (cases "serializable False (?ok results)")
        case True
        then have eq: "search_web_impl backend query n
            = Inr (encode (Some 2) False 0 (PDict ((''status'', PStr ''success'')
                   # [(''query'', PStr query), (''results'', PList (map (\<lambda>result. PDict
                         [(''title'', dict_get result ''title'' (PStr ''No title'')),
                          (''url'', dict_get result ''href'' (PStr ''No URL'')),
                          (''snippet'', dict_get result ''body'' (PStr ''No description''))])
                         results))])))"
          using Inr False by (simp add: search_web_impl_def dumps_def del: encode.simps)
        show ?thesis unfolding eq by blast
      next
        case unser: False
        then have eq: "search_web_impl backend query n
            = Inr (encode (Some 2) False 0 (PDict ((''status'', PStr ''error'')
                     # ?err (TypeError ''Object is not JSON serializable''))))"
          using Inr False by (simp add: search_web_impl_def dumps_def del: encode.simps)
        show ?thesis unfolding eq by (rule failed)
      qed
    qed
  qed
qed

text \<open>
  C3. The claim holds for the \<^verbatim>\<open>"status"\<close> member and fails for the formatting: when the
  backend returns no results, \<^verbatim>\<open>_search_web_impl\<close> and \<^verbatim>\<open>_search_news_impl\<close> call
  \<^verbatim>\<open>json.dumps\<close> without \<^verbatim>\<open>indent=2\<close> and return the object on one line, which is not
  what \<^verbatim>\<open>json.dumps(..., indent=2)\<close> returns for it.
\<close>

theorem search_impl_empty_result_not_indented:
  "search_web_impl (\<lambda>q n. Inr []) query n
     = Inr (''{'' @ [CHR 0x22] @ ''status'' @ [CHR 0x22] @ '': '' @ [CHR 0x22] @ ''success'' @ [CHR 0x22]
            @ '', '' @ [CHR 0x22] @ ''results'' @ [CHR 0x22] @ '': [], ''
            @ [CHR 0x22] @ ''message'' @ [CHR 0x22] @ '': ''
            @ [CHR 0x22] @ ''No results found.'' @ [CHR 0x22] @ ''}'')
   \<and> dumps (Some 2) False False (no_results ''No results found.'')
     = Inr (''{'' @ [CHR 0x0A] @ ''  '' @ [CHR 0x22] @ ''status'' @ [CHR 0x22] @ '': ''
            @ [CHR 0x22] @ ''success'' @ [CHR 0x22] @ '','' @ [CHR 0x0A] @ ''  ''
            @ [CHR 0x22] @ ''results'' @ [CHR 0x22] @ '': [],'' @ [CHR 0x0A] @ ''  ''
            @ [CHR 0x22] @ ''message'' @ [CHR 0x22] @ '': ''
            @ [CHR 0x22] @ ''No results found.'' @ [CHR 0x22] @ [CHR 0x0A] @ ''}'')
   \<and> search_web_impl (\<lambda>q n. Inr []) query n
       \<noteq> dumps (Some 2) False False (no_results ''No results found.'')
   \<and> search_news_impl (\<lambda>q n. Inr []) query n
     = Inr (''{'' @ [CHR 0x22] @ ''status'' @ [CHR 0x22] @ '': '' @ [CHR 0x22] @ ''success'' @ [CHR 0x22]
            @ '', '' @ [CHR 0x22] @ ''results'' @ [CHR 0x22] @ '': [], ''
            @ [CHR 0x22] @ ''message'' @ [CHR 0x22] @ '': ''
            @ [CHR 0x22] @ ''No news found.'' @ [CHR 0x22] @ ''}'')
   \<and> search_news_impl (\<lambda>q n. Inr []) query n
       \<noteq> dumps (Some 2) False False (no_results ''No news found.'')"
  by (simp add: search_web_impl_def search_news_impl_def no_results_def json_eval)

section \<open>Properties of the crawler\<close>

declare crawl_loop.simps [simp del]

lemma crawl_steps_invariant:
  assumes "P s" and "\<And>s. P s \<Longrightarrow> crawl_continues max_pages s \<Longrightarrow> P (crawl_iteration w sd base s)"
  shows "P (crawl_steps w max_pages sd base n s)"
  using assms(1)
proof (induction n arbitrary: s)
  case 0
  then show ?case by simp
next
  case (Suc n)
  then show ?case using assms(2) by simp
qed

lemma crawl_loop_invariant:
  assumes "P s" and "\<And>s. P s \<Longrightarrow> crawl_continues max_pages s \<Longrightarrow> P (crawl_iteration w sd base s)"
  shows "P (crawl_loop w max_pages sd base s)"
  using assms
proof (induction w max_pages sd base s rule: crawl_loop.induct)
  case (1 w max_pages same_domain base_domain s)
  show ?case
  proof (cases "crawl_continues max_pages s")
    case True
    then have "P (crawl_iteration w same_domain base_domain s)"
      using "1.prems" by blast
    then have "P (crawl_loop w max_pages same_domain base_domain (crawl_iteration w same_domain base_domain s))"
      using "1.IH" True "1.prems"(2) by blast
    then show ?thesis
      using True crawl_loop.simps [of w max_pages same_domain base_domain s] by simp
  next
    case False
    then show ?thesis
      using "1.prems"(1) crawl_loop.simps [of w max_pages same_domain base_domain s] by simp
  qed
qed

lemma crawl_loop_stops: "\<not> crawl_continues max_pages (crawl_loop w max_pages sd base s)"
proof (induction w max_pages sd base s rule: crawl_loop.induct)
  case (1 w max_pages same_domain base_domain s)
  then show ?case
    using crawl_loop.simps [of w max_pages same_domain base_domain s] by (cases "crawl_continues max_pages s") simp_all
qed

lemma crawl_loop_is_steps: "\<exists>n. crawl_loop w max_pages sd base s = crawl_steps w max_pages sd base n s"
proof (induction w max_pages sd base s rule: crawl_loop.induct)
  case (1 w max_pages same_domain base_domain s)
  show ?case
  proof (cases "crawl_continues max_pages s")
    case True
    then obtain n where "crawl_loop w max_pages same_domain base_domain (crawl_iteration w same_domain base_domain s)
        = crawl_steps w max_pages same_domain base_domain n (crawl_iteration w same_domain base_domain s)"
      using 1 by blast
    then have "crawl_loop w max_pages same_domain base_domain s = crawl_steps w max_pages same_domain base_domain (Suc n) s"
      using True crawl_loop.simps [of w max_pages same_domain base_domain s] by simp
    then show ?thesis by blast
  next
    case False
    then have "crawl_loop w max_pages same_domain base_domain s = crawl_steps w max_pages same_domain base_domain 0 s"
      using crawl_loop.simps [of w max_pages same_domain base_domain s] by simp
    then show ?thesis by blast
  qed
qed

lemma pages_crawl_iteration:
  "pages (crawl_iteration w sd base s) = pages s
   \<or> (\<exists>u doc rest. to_visit s = u # rest \<and> u \<notin> visited s \<and> fetch w u = Inr doc
         \<and> pages (crawl_iteration w sd base s) = pages s @ [page_of u doc])"
  by (auto simp: crawl_iteration_def split: list.splits sum.splits)

lemma length_pages_crawl_iteration:
  "length (pages (crawl_iteration w sd base s)) \<le> Suc (length (pages s))"
  using pages_crawl_iteration [of w sd base s] by auto

lemma budget_invariant:
  assumes "0 \<le> max_pages" "int (length (pages s)) \<le> max_pages"
  shows "int (length (pages (crawl_steps w max_pages sd base n s))) \<le> max_pages"
proof (rule crawl_steps_invariant [where P = "\<lambda>s. int (length (pages s)) \<le> max_pages"])
  show "int (length (pages s)) \<le> max_pages" by (rule assms(2))
next
  fix s assume "int (length (pages s)) \<le> max_pages" "crawl_continues max_pages s"
  then show "int (length (pages (crawl_iteration w sd base s))) \<le> max_pages"
    using length_pages_crawl_iteration [of w sd base s] by (simp add: crawl_continues_def)
qed


lemma contains_iff_sublist: "contains p s = sublist p s"
proof (induction s)
  case Nil
  then show ?case by simp
next
  case (Cons c cs)
  then show ?case by (simp add: sublist_Cons_right)
qed

lemma visit_anchor_cases:
  assumes "visit_anchor w cur sd base vis frontier href = Inr frontier'"
  shows "frontier' = frontier
         \<or> (\<exists>full. urljoin w cur href = Inr full \<and> frontier' = frontier @ [full]
               \<and> link_ok full \<and> full \<notin> vis \<and> full \<notin> set frontier
               \<and> (sd \<longrightarrow> netloc w full = Inr base))"
  using assms
  by (auto simp: visit_anchor_def link_ok_def split: sum.splits if_splits)

lemma visit_anchors_new:
  assumes "u \<in> set (visit_anchors w cur sd base vis frontier hs)"
  shows "u \<in> set frontier \<or> (link_ok u \<and> u \<notin> vis \<and> (sd \<longrightarrow> netloc w u = Inr base))"
  using assms
proof (induction hs arbitrary: frontier)
  case Nil
  then show ?case by simp
next
  case (Cons h hs)
  show ?case
  proof (cases "visit_anchor w cur sd base vis frontier h")
    case (Inl e)
    then show ?thesis using Cons.prems by simp
  next
    case (Inr frontier')
    then have "u \<in> set (visit_anchors w cur sd base vis frontier' hs)"
      using Cons.prems by simp
    then have "u \<in> set frontier' \<or> (link_ok u \<and> u \<notin> vis \<and> (sd \<longrightarrow> netloc w u = Inr base))"
      by (rule Cons.IH)
    then show ?thesis using visit_anchor_cases [OF Inr] by auto
  qed
qed

lemma visit_anchors_keeps: "set frontier \<subseteq> set (visit_anchors w cur sd base vis frontier hs)"
proof (induction hs arbitrary: frontier)
  case Nil
  then show ?case by simp
next
  case (Cons h hs)
  show ?case
  proof (cases "visit_anchor w cur sd base vis frontier h")
    case (Inl e)
    then show ?thesis by simp
  next
    case (Inr frontier')
    then have "set frontier \<subseteq> set frontier'"
      using visit_anchor_cases [OF Inr] by auto
    then show ?thesis using Cons.IH [of frontier'] Inr by auto
  qed
qed

lemma in_set_tl: "x \<in> set (tl xs) \<Longrightarrow> x \<in> set xs"
  by (cases xs) auto

lemma to_visit_crawl_iteration:
  assumes "u \<in> set (to_visit (crawl_iteration w sd base s))"
  shows "u \<in> set (tl (to_visit s))
         \<or> (link_ok u \<and> (sd \<longrightarrow> netloc w u = Inr base))"
proof (cases "to_visit s")
  case Nil
  then show ?thesis using assms by (simp add: crawl_iteration_def)
next
  case (Cons c rest)
  show ?thesis
  proof (cases "c \<in> visited s")
    case True
    then show ?thesis using assms Cons by (simp add: crawl_iteration_def)
  next
    case False
    show ?thesis
    proof (cases "fetch w c")
      case (Inl e)
      then show ?thesis using assms Cons False by (simp add: crawl_iteration_def)
    next
      case (Inr doc)
      then have "u \<in> set (visit_anchors w c sd base (insert c (visited s)) rest (hrefs doc))"
        using assms Cons False by (simp add: crawl_iteration_def)
      then show ?thesis using visit_anchors_new Cons by fastforce
    qed
  qed
qed

lemma url_page_of: "url (page_of u doc) = u"
  by (simp add: page_of_def)

lemma fetched_invariant:
  assumes "\<forall>p \<in> set (pages s). \<exists>doc. fetch w (url p) = Inr doc"
  shows "\<forall>p \<in> set (pages (crawl_iteration w sd base s)). \<exists>doc. fetch w (url p) = Inr doc"
  using assms pages_crawl_iteration [of w sd base s] by (auto simp: url_page_of)

lemma domain_invariant:
  assumes "\<forall>u \<in> set (to_visit s). netloc w u = Inr base"
    and "\<forall>p \<in> set (pages s). netloc w (url p) = Inr base"
  shows "(\<forall>u \<in> set (to_visit (crawl_iteration w True base s)). netloc w u = Inr base)
         \<and> (\<forall>p \<in> set (pages (crawl_iteration w True base s)). netloc w (url p) = Inr base)"
proof
  show "\<forall>u \<in> set (to_visit (crawl_iteration w True base s)). netloc w u = Inr base"
  proof
    fix u assume "u \<in> set (to_visit (crawl_iteration w True base s))"
    then have "u \<in> set (tl (to_visit s)) \<or> (link_ok u \<and> (True \<longrightarrow> netloc w u = Inr base))"
      by (rule to_visit_crawl_iteration)
    then show "netloc w u = Inr base"
      using assms(1) by (auto dest: in_set_tl)
  qed
next
  show "\<forall>p \<in> set (pages (crawl_iteration w True base s)). netloc w (url p) = Inr base"
    using assms pages_crawl_iteration [of w True base s] by (auto simp: url_page_of)
qed

lemma visited_crawl_iteration:
  "to_visit s \<noteq> [] \<Longrightarrow> visited (crawl_iteration w sd base s) \<noteq> {}"
  by (auto simp: crawl_iteration_def split: list.splits sum.splits)

lemma filtered_invariant:
  assumes "s = initial_state seed \<or> (\<forall>u \<in> set (to_visit s). link_ok u)"
    and "crawl_continues max_pages s"
  shows "crawl_iteration w sd base s \<noteq> initial_state seed
         \<and> (\<forall>u \<in> set (to_visit (crawl_iteration w sd base s)). link_ok u)"
proof
  have "visited (crawl_iteration w sd base s) \<noteq> {}"
    using assms(2) by (simp add: visited_crawl_iteration crawl_continues_def)
  then show "crawl_iteration w sd base s \<noteq> initial_state seed"
    by (auto simp: initial_state_def)
next
  show "\<forall>u \<in> set (to_visit (crawl_iteration w sd base s)). link_ok u"
  proof
    fix u assume "u \<in> set (to_visit (crawl_iteration w sd base s))"
    then have "u \<in> set (tl (to_visit s)) \<or> (link_ok u \<and> (sd \<longrightarrow> netloc w u = Inr base))"
      by (rule to_visit_crawl_iteration)
    moreover have "u \<in> set (tl (to_visit s)) \<Longrightarrow> link_ok u"
      using assms(1) by (auto simp: initial_state_def dest: in_set_tl)
    ultimately show "link_ok u" by blast
  qed
qed

lemma contains_singleton: "contains [c] s = (c \<in> set s)"
  by (induction s) auto

lemma lower_char_hash: "lower_char (CHR ''#'') = CHR ''#''"
  by (simp add: lower_char_def)

lemma hash_in_lower: "CHR ''#'' \<in> set u \<Longrightarrow> CHR ''#'' \<in> set (lower u)"
  using lower_char_hash by (force simp: lower_def)

lemma suffix_contains_lower:
  assumes "suffix e u" and "lower e = e"
  shows "contains e (lower u)"
proof -
  obtain xs where "u = xs @ e"
    using assms(1) by (auto simp: suffix_def)
  then have "lower u = lower xs @ e @ []"
    using assms(2) by (simp add: lower_def)
  then have "sublist e (lower u)"
    unfolding sublist_def by blast
  then show ?thesis by (simp add: contains_iff_sublist)
qed

lemma skip_pattern_not_ok: "p \<in> set skip_patterns \<Longrightarrow> contains p (lower u) \<Longrightarrow> \<not> link_ok u"
  by (auto simp: link_ok_def list_ex_iff)

lemma non_content_not_ok:
  assumes "non_content u"
  shows "\<not> link_ok u"
proof -
  consider (frag) "CHR ''#'' \<in> set u" | (mail) "prefix ''mailto:'' u" | (tel) "prefix ''tel:'' u"
    | (ext) e where "e \<in> set [''.pdf'', ''.jpg'', ''.png'', ''.gif'', ''.css'', ''.js'']" "suffix e u"
    using assms by (auto simp: non_content_def list_ex_iff)
  then show ?thesis
  proof cases
    case frag
    then have "contains ''#'' (lower u)"
      by (simp add: contains_singleton hash_in_lower)
    then show ?thesis
      by (rule skip_pattern_not_ok [rotated]) (simp add: skip_patterns_def)
  next
    case mail
    then show ?thesis by (auto simp: link_ok_def is_web_url_def prefix_def)
  next
    case tel
    then show ?thesis by (auto simp: link_ok_def is_web_url_def prefix_def)
  next
    case ext
    have "lower e = e"
      using ext(1) by (auto simp: lower_def lower_char_def)
    then have "contains e (lower u)"
      using ext(2) by (simp add: suffix_contains_lower)
    moreover have "e \<in> set skip_patterns"
      using ext(1) by (auto simp: skip_patterns_def)
    ultimately show ?thesis by (rule skip_pattern_not_ok [rotated])
  qed
qed

lemma budget_final:
  assumes "0 \<le> max_pages"
  shows "int (length (pages (crawl_loop w max_pages sd base (initial_state seed)))) \<le> max_pages
         \<and> (to_visit (crawl_loop w max_pages sd base (initial_state seed)) = []
            \<or> int (length (pages (crawl_loop w max_pages sd base (initial_state seed)))) = max_pages)"
proof -
  let ?F = "crawl_loop w max_pages sd base (initial_state seed)"
  obtain n where "?F = crawl_steps w max_pages sd base n (initial_state seed)"
    using crawl_loop_is_steps by blast
  then have le: "int (length (pages ?F)) \<le> max_pages"
    using budget_invariant [of max_pages "initial_state seed" w sd base n] assms
    by (simp add: initial_state_def)
  have "\<not> crawl_continues max_pages ?F"
    by (rule crawl_loop_stops)
  then show ?thesis using le by (auto simp: crawl_continues_def)
qed

lemma crawl_result:
  "crawl w u max_pages sd = Inr s \<longleftrightarrow>
     (\<exists>d. netloc w (normalize_seed u) = Inr d
          \<and> s = crawl_loop w max_pages sd d (initial_state (normalize_seed u)))"
  by (auto simp: crawl_def split: sum.splits)

lemma crawl_website_impl_success:
  assumes "crawl w u max_pages sd = Inr s"
  shows "crawl_website_impl w u max_pages sd
     = Inr (encode (Some 2) False 0
         (PDict [(''status'', PStr ''success''), (''start_url'', PStr (normalize_seed u)),
                 (''pages_crawled'', PInt (int (length (pages s)))),
                 (''pages'', PList (map page_json (pages s)))]))"
  using assms
  by (simp add: crawl_website_impl_def dumps_def page_json_def list_all_iff del: encode.simps)

lemma crawl_website_impl_error:
  assumes "crawl w u max_pages sd = Inl e"
  shows "crawl_website_impl w u max_pages sd
     = Inr (encode (Some 2) False 0
         (PDict [(''status'', PStr ''error''), (''url'', PStr (normalize_seed u)),
                 (''message'', PStr (''Crawl failed: '' @ str_error e))]))"
  using assms
  by (simp add: crawl_website_impl_def dumps_def del: encode.simps)

lemma never_fetched_absent:
  assumes "fetch w u = Inl e"
  shows "u \<notin> url ` set (pages (crawl_steps w max_pages sd base n (initial_state seed)))"
    and "u \<notin> url ` set (pages (crawl_loop w max_pages sd base (initial_state seed)))"
proof -
  let ?P = "\<lambda>s. \<forall>p \<in> set (pages s). \<exists>doc. fetch w (url p) = Inr doc"
  have init: "?P (initial_state seed)"
    by (simp add: initial_state_def)
  have step: "\<And>s. ?P s \<Longrightarrow> crawl_continues max_pages s \<Longrightarrow> ?P (crawl_iteration w sd base s)"
    by (rule fetched_invariant)
  have "?P (crawl_steps w max_pages sd base n (initial_state seed))"
    using init step by (rule crawl_steps_invariant)
  then show "u \<notin> url ` set (pages (crawl_steps w max_pages sd base n (initial_state seed)))"
    using assms by auto
  have "?P (crawl_loop w max_pages sd base (initial_state seed))"
    using init step by (rule crawl_loop_invariant)
  then show "u \<notin> url ` set (pages (crawl_loop w max_pages sd base (initial_state seed)))"
    using assms by auto
qed

lemma frontier_filtered_steps:
  "crawl_steps w max_pages sd base n (initial_state seed) = initial_state seed
   \<or> (\<forall>u \<in> set (to_visit (crawl_steps w max_pages sd base n (initial_state seed))). link_ok u)"
proof (rule crawl_steps_invariant
    [where P = "\<lambda>s. s = initial_state seed \<or> (\<forall>u \<in> set (to_visit s). link_ok u)"])
  show "initial_state seed = initial_state seed \<or> (\<forall>u \<in> set (to_visit (initial_state seed)). link_ok u)"
    by simp
next
  fix s :: crawl_state
  assume "s = initial_state seed \<or> (\<forall>u \<in> set (to_visit s). link_ok u)"
    and "crawl_continues max_pages s"
  then show "crawl_iteration w sd base s = initial_state seed
      \<or> (\<forall>u \<in> set (to_visit (crawl_iteration w sd base s)). link_ok u)"
    using filtered_invariant by blast
qed

lemma frontier_filtered_final:
  "crawl_loop w max_pages sd base (initial_state seed) = initial_state seed
   \<or> (\<forall>u \<in> set (to_visit (crawl_loop w max_pages sd base (initial_state seed))). link_ok u)"
proof -
  obtain n where "crawl_loop w max_pages sd base (initial_state seed)
      = crawl_steps w max_pages sd base n (initial_state seed)"
    using crawl_loop_is_steps by blast
  then show ?thesis using frontier_filtered_steps [of w max_pages sd base n seed] by simp
qed

lemma not_ok_discarded:
  assumes "urljoin w cur href = Inr full" and "\<not> link_ok full"
  shows "visit_anchor w cur sd base vis frontier href = Inr frontier
         \<or> (\<exists>e. visit_anchor w cur sd base vis frontier href = Inl e)"
  using assms by (auto simp: visit_anchor_def link_ok_def split: sum.splits)

lemma domain_steps:
  assumes "netloc w seed = Inr base"
  shows "(\<forall>u \<in> set (to_visit (crawl_steps w max_pages True base n (initial_state seed))). netloc w u = Inr base)
       \<and> (\<forall>p \<in> set (pages (crawl_steps w max_pages True base n (initial_state seed))). netloc w (url p) = Inr base)"
proof (rule crawl_steps_invariant
    [where P = "\<lambda>s. (\<forall>u \<in> set (to_visit s). netloc w u = Inr base)
                    \<and> (\<forall>p \<in> set (pages s). netloc w (url p) = Inr base)"])
  show "(\<forall>u \<in> set (to_visit (initial_state seed)). netloc w u = Inr base)
       \<and> (\<forall>p \<in> set (pages (initial_state seed)). netloc w (url p) = Inr base)"
    using assms by (simp add: initial_state_def)
next
  fix s :: crawl_state
  assume "(\<forall>u \<in> set (to_visit s). netloc w u = Inr base)
       \<and> (\<forall>p \<in> set (pages s). netloc w (url p) = Inr base)"
  then show "(\<forall>u \<in> set (to_visit (crawl_iteration w True base s)). netloc w u = Inr base)
       \<and> (\<forall>p \<in> set (pages (crawl_iteration w True base s)). netloc w (url p) = Inr base)"
    using domain_invariant by blast
qed

text \<open>
  C7, as amended. For a page budget \<open>max_pages \<ge> 0\<close>: after every number of iterations the
  page list has at most \<open>max_pages\<close> entries, and the loop goes on from that state exactly
  when the frontier is not empty and the page count is not \<open>max_pages\<close>; the loop ends, in
  a state some number of iterations reaches, with at most \<open>max_pages\<close> pages and with the
  frontier empty or the page count equal to \<open>max_pages\<close>; and so does every crawl that
  returns. (For a negative budget the loop does not run and the empty page list is
  longer than the budget.)
\<close>

theorem crawl_page_budget:
  assumes "0 \<le> max_pages"
  shows "(\<forall>n. int (length (pages (crawl_steps w max_pages sd base n (initial_state seed)))) \<le> max_pages
            \<and> crawl_continues max_pages (crawl_steps w max_pages sd base n (initial_state seed))
                = (\<not> (to_visit (crawl_steps w max_pages sd base n (initial_state seed)) = []
                      \<or> int (length (pages (crawl_steps w max_pages sd base n (initial_state seed))))
                          = max_pages)))
       \<and> int (length (pages (crawl_loop w max_pages sd base (initial_state seed)))) \<le> max_pages
       \<and> (to_visit (crawl_loop w max_pages sd base (initial_state seed)) = []
          \<or> int (length (pages (crawl_loop w max_pages sd base (initial_state seed)))) = max_pages)
       \<and> (\<exists>n. crawl_loop w max_pages sd base (initial_state seed)
               = crawl_steps w max_pages sd base n (initial_state seed))
       \<and> (\<forall>s. crawl w u max_pages sd = Inr s \<longrightarrow>
               int (length (pages s)) \<le> max_pages
               \<and> (to_visit s = [] \<or> int (length (pages s)) = max_pages))"
proof -
  have steps: "int (length (pages (crawl_steps w max_pages sd base n (initial_state seed)))) \<le> max_pages" for n
    using budget_invariant [of max_pages "initial_state seed" w sd base n] assms
    by (simp add: initial_state_def)
  have cont: "crawl_continues max_pages (crawl_steps w max_pages sd base n (initial_state seed))
                = (\<not> (to_visit (crawl_steps w max_pages sd base n (initial_state seed)) = []
                      \<or> int (length (pages (crawl_steps w max_pages sd base n (initial_state seed))))
                          = max_pages))" for n
    using steps [of n] by (auto simp: crawl_continues_def)
  have final: "int (length (pages (crawl_loop w max_pages sd b (initial_state sd0)))) \<le> max_pages
         \<and> (to_visit (crawl_loop w max_pages sd b (initial_state sd0)) = []
            \<or> int (length (pages (crawl_loop w max_pages sd b (initial_state sd0)))) = max_pages)" for b sd0
    using assms by (rule budget_final)
  have returned: "\<forall>s. crawl w u max_pages sd = Inr s \<longrightarrow>
               int (length (pages s)) \<le> max_pages
               \<and> (to_visit s = [] \<or> int (length (pages s)) = max_pages)"
    using final by (auto simp: crawl_result)
  show ?thesis
    using steps cont final [of base seed] returned
      crawl_loop_is_steps [of w max_pages sd base "initial_state seed"]
    by blast
qed

lemma example_budget_one:
  "map url (pages (crawl_loop example_web 1 True ''example.com'' (initial_state ''https://example.com/'')))
     = [''https://example.com/'']
   \<and> to_visit (crawl_loop example_web 1 True ''example.com'' (initial_state ''https://example.com/''))
     = [''https://example.com/b'', ''https://example.com/c'']"
  by code_simp

theorem crawl_page_budget_witness:
  "(0::int) \<le> 1
   \<and> int (length (pages (crawl_loop example_web 1 True ''example.com''
                          (initial_state ''https://example.com/'')))) \<le> 1
   \<and> map url (pages (crawl_loop example_web 1 True ''example.com'' (initial_state ''https://example.com/'')))
     = [''https://example.com/'']
   \<and> to_visit (crawl_loop example_web 1 True ''example.com'' (initial_state ''https://example.com/''))
     = [''https://example.com/b'', ''https://example.com/c'']"
proof -
  have h: "(0::int) \<le> 1" by simp
  have "int (length (pages (crawl_loop example_web 1 True ''example.com''
                          (initial_state ''https://example.com/'')))) \<le> 1"
    using crawl_page_budget [OF h, of example_web True "''example.com''" "''https://example.com/''"]
    by blast
  then show ?thesis using h example_budget_one by blast
qed

text \<open>
  The claim as stated fails for a negative budget: with \<^verbatim>\<open>max_pages = -1\<close> the crawl returns
  the initial state, whose empty page list has more than \<open>-1\<close> entries.
\<close>

theorem crawl_page_budget_counterexample:
  "crawl dead_web ''example.com'' (- 1) True = Inr (initial_state ''https://example.com'')
   \<and> \<not> int (length (pages (initial_state ''https://example.com''))) \<le> - 1"
  by (simp add: crawl_def normalize_seed_def is_web_url_def dead_web_def crawl_loop.simps
      crawl_continues_def initial_state_def)

text \<open>
  C2, as amended. A page whose fetch raises, the seed included, is absent from the page
  list after every number of iterations, at the end of the loop and in the result of
  the crawl; the iteration that takes it from the frontier marks it visited and changes
  nothing else, so none of its links is enqueued and the loop goes on with the rest of
  the frontier; and whenever \<^verbatim>\<open>urlparse\<close> accepts the seed the function returns the
  \<^verbatim>\<open>"success"\<close> object, whatever fetches failed. No fetch failure, not the seed's either,
  gives an \<^verbatim>\<open>"error"\<close> result.
\<close>

theorem fetch_failure_skipped:
  assumes "fetch w u = Inl e"
  shows "(\<forall>n. u \<notin> url ` set (pages (crawl_steps w max_pages sd base n (initial_state seed))))
       \<and> u \<notin> url ` set (pages (crawl_loop w max_pages sd base (initial_state seed)))
       \<and> (\<forall>s rest. to_visit s = u # rest \<and> u \<notin> visited s \<longrightarrow>
              crawl_iteration w sd base s = s\<lparr>visited := insert u (visited s), to_visit := rest\<rparr>)
       \<and> (\<forall>s. crawl w seed0 max_pages sd = Inr s \<longrightarrow> u \<notin> url ` set (pages s))
       \<and> (\<forall>d. netloc w (normalize_seed seed0) = Inr d \<longrightarrow>
              (\<exists>s. crawl w seed0 max_pages sd = Inr s
                 \<and> crawl_website_impl w seed0 max_pages sd
                    = Inr (encode (Some 2) False 0
                        (PDict [(''status'', PStr ''success''),
                                (''start_url'', PStr (normalize_seed seed0)),
                                (''pages_crawled'', PInt (int (length (pages s)))),
                                (''pages'', PList (map page_json (pages s)))]))))"
proof -
  have a: "\<forall>n. u \<notin> url ` set (pages (crawl_steps w max_pages sd base n (initial_state seed)))"
    using never_fetched_absent(1) [OF assms] by blast
  have b: "u \<notin> url ` set (pages (crawl_loop w max_pages sd base (initial_state seed)))"
    using never_fetched_absent(2) [OF assms] by blast
  have c: "\<forall>s rest. to_visit s = u # rest \<and> u \<notin> visited s \<longrightarrow>
              crawl_iteration w sd base s = s\<lparr>visited := insert u (visited s), to_visit := rest\<rparr>"
    using assms by (simp add: crawl_iteration_def)
  have d: "\<forall>s. crawl w seed0 max_pages sd = Inr s \<longrightarrow> u \<notin> url ` set (pages s)"
  proof (intro allI impI)
    fix s assume "crawl w seed0 max_pages sd = Inr s"
    then obtain d where "s = crawl_loop w max_pages sd d (initial_state (normalize_seed seed0))"
      by (auto simp: crawl_result)
    then show "u \<notin> url ` set (pages s)"
      using never_fetched_absent(2) [OF assms, of max_pages sd d "normalize_seed seed0"] by simp
  qed
  have f: "\<forall>d. netloc w (normalize_seed seed0) = Inr d \<longrightarrow>
              (\<exists>s. crawl w seed0 max_pages sd = Inr s
                 \<and> crawl_website_impl w seed0 max_pages sd
                    = Inr (encode (Some 2) False 0
                        (PDict [(''status'', PStr ''success''),
                                (''start_url'', PStr (normalize_seed seed0)),
                                (''pages_crawled'', PInt (int (length (pages s)))),
                                (''pages'', PList (map page_json (pages s)))])))"
  proof (intro allI impI)
    fix d assume "netloc w (normalize_seed seed0) = Inr d"
    then have "crawl w seed0 max_pages sd
        = Inr (crawl_loop w max_pages sd d (initial_state (normalize_seed seed0)))"
      by (simp add: crawl_def)
    then show "\<exists>s. crawl w seed0 max_pages sd = Inr s
                 \<and> crawl_website_impl w seed0 max_pages sd
                    = Inr (encode (Some 2) False 0
                        (PDict [(''status'', PStr ''success''),
                                (''start_url'', PStr (normalize_seed seed0)),
                                (''pages_crawled'', PInt (int (length (pages s)))),
                                (''pages'', PList (map page_json (pages s)))]))"
      using crawl_website_impl_success by blast
  qed
  show ?thesis using a b c d f by blast
qed

lemma example_crawl:
  "map url (pages (crawl_loop example_web 10 True ''example.com'' (initial_state ''https://example.com/'')))
     = [''https://example.com/'', ''https://example.com/c'', ''https://example.com/e'']"
  by code_simp

lemma example_b_fails: "fetch example_web ''https://example.com/b'' = Inl (Exception ''connection refused'')"
  by (simp add: example_web_def)

theorem fetch_failure_skipped_witness:
  "fetch example_web ''https://example.com/b'' = Inl (Exception ''connection refused'')
   \<and> ''https://example.com/b'' \<notin> url ` set (pages (crawl_loop example_web 10 True ''example.com''
                                                     (initial_state ''https://example.com/'')))
   \<and> map url (pages (crawl_loop example_web 10 True ''example.com'' (initial_state ''https://example.com/'')))
     = [''https://example.com/'', ''https://example.com/c'', ''https://example.com/e'']"
proof -
  have "''https://example.com/b'' \<notin> url ` set (pages (crawl_loop example_web 10 True ''example.com''
                                                     (initial_state ''https://example.com/'')))"
    using fetch_failure_skipped [OF example_b_fails, of 10 True "''example.com''" "''https://example.com/''"]
    by blast
  then show ?thesis using example_b_fails example_crawl by blast
qed

text \<open>
  The claim as stated fails for the seed: on a site where the first request fails, the
  function returns the \<^verbatim>\<open>"success"\<close> object with no pages, not an \<^verbatim>\<open>"error"\<close> result.
\<close>

theorem fetch_failure_skipped_counterexample:
  "fetch dead_web (normalize_seed ''example.com'') = Inl (Exception ''connection refused'')
   \<and> crawl_website_impl dead_web ''example.com'' 10 True
     = Inr (''{'' @ [CHR 0x0A] @ ''  '' @ [CHR 0x22] @ ''status'' @ [CHR 0x22] @ '': '' @ [CHR 0x22] @ ''success'' @ [CHR 0x22] @ '','' @ [CHR 0x0A] @ ''  '' @ [CHR 0x22] @ ''start_url'' @ [CHR 0x22] @ '': '' @ [CHR 0x22] @ ''https://example.com'' @ [CHR 0x22] @ '','' @ [CHR 0x0A] @ ''  '' @ [CHR 0x22] @ ''pages_crawled'' @ [CHR 0x22] @ '': 0,'' @ [CHR 0x0A] @ ''  '' @ [CHR 0x22] @ ''pages'' @ [CHR 0x22] @ '': []'' @ [CHR 0x0A] @ ''}'')"
  by code_simp

text \<open>
  C8. A crawl with the same-domain restriction that returns: every page record has a URL
  whose \<^verbatim>\<open>netloc\<close> is the \<^verbatim>\<open>netloc\<close> of the seed (with its \<^verbatim>\<open>https://\<close> prefix added when
  it had no web scheme); every URL in the frontier, after every number of iterations,
  has it too; and a link whose \<^verbatim>\<open>netloc\<close> is another one, or has none, is never appended
  to the frontier.
\<close>

theorem crawl_same_domain:
  assumes "crawl w u max_pages True = Inr s"
  shows "(\<forall>p \<in> set (pages s). netloc w (url p) = netloc w (normalize_seed u))
       \<and> (\<forall>d n. netloc w (normalize_seed u) = Inr d \<longrightarrow>
             (\<forall>u' \<in> set (to_visit (crawl_steps w max_pages True d n (initial_state (normalize_seed u)))).
                 netloc w u' = Inr d))
       \<and> (\<forall>d current_url href full vis frontier.
             netloc w (normalize_seed u) = Inr d \<and> urljoin w current_url href = Inr full
             \<and> netloc w full \<noteq> Inr d \<longrightarrow>
               visit_anchor w current_url True d vis frontier href = Inr frontier
               \<or> (\<exists>e. visit_anchor w current_url True d vis frontier href = Inl e))"
proof -
  obtain d where d: "netloc w (normalize_seed u) = Inr d"
    and s: "s = crawl_loop w max_pages True d (initial_state (normalize_seed u))"
    using assms by (auto simp: crawl_result)
  obtain n where "s = crawl_steps w max_pages True d n (initial_state (normalize_seed u))"
    using s crawl_loop_is_steps by blast
  then have a: "\<forall>p \<in> set (pages s). netloc w (url p) = netloc w (normalize_seed u)"
    using domain_steps [OF d, of max_pages n] d by simp
  have b: "\<forall>d n. netloc w (normalize_seed u) = Inr d \<longrightarrow>
             (\<forall>u' \<in> set (to_visit (crawl_steps w max_pages True d n (initial_state (normalize_seed u)))).
                 netloc w u' = Inr d)"
    using domain_steps by blast
  have c: "\<forall>d current_url href full vis frontier.
             netloc w (normalize_seed u) = Inr d \<and> urljoin w current_url href = Inr full
             \<and> netloc w full \<noteq> Inr d \<longrightarrow>
               visit_anchor w current_url True d vis frontier href = Inr frontier
               \<or> (\<exists>e. visit_anchor w current_url True d vis frontier href = Inl e)"
    by (auto simp: visit_anchor_def split: sum.splits)
  show ?thesis using a b c by blast
qed

lemma example_crawl_result:
  "crawl example_web ''example.com/'' 10 True
     = Inr (crawl_loop example_web 10 True ''example.com'' (initial_state ''https://example.com/''))"
  by (simp add: crawl_def normalize_seed_def is_web_url_def example_web_def)

lemma example_seed_netloc: "netloc example_web (normalize_seed ''example.com/'') = Inr ''example.com''"
  by (simp add: normalize_seed_def is_web_url_def example_web_def)

theorem crawl_same_domain_witness:
  "crawl example_web ''example.com/'' 10 True
     = Inr (crawl_loop example_web 10 True ''example.com'' (initial_state ''https://example.com/''))
   \<and> map (\<lambda>p. netloc example_web (url p))
        (pages (crawl_loop example_web 10 True ''example.com'' (initial_state ''https://example.com/'')))
     = [Inr ''example.com'', Inr ''example.com'', Inr ''example.com'']
   \<and> visit_anchor example_web ''https://example.com/'' True ''example.com'' {} []
        ''https://other.org/d'' = Inr []"
proof -
  let ?S = "crawl_loop example_web 10 True ''example.com'' (initial_state ''https://example.com/'')"
  have "\<forall>p \<in> set (pages ?S). netloc example_web (url p) = Inr ''example.com''"
    using crawl_same_domain [OF example_crawl_result] example_seed_netloc by simp
  then have "map (\<lambda>p. netloc example_web (url p)) (pages ?S) = map (\<lambda>p. Inr ''example.com'') (pages ?S)"
    by simp
  also have "\<dots> = map (\<lambda>x. Inr ''example.com'') (map url (pages ?S))"
    by simp
  also have "\<dots> = [Inr ''example.com'', Inr ''example.com'', Inr ''example.com'']"
    by (simp only: example_crawl) simp
  finally have m: "map (\<lambda>p. netloc example_web (url p)) (pages ?S)
     = [Inr ''example.com'', Inr ''example.com'', Inr ''example.com'']" .
  have "visit_anchor example_web ''https://example.com/'' True ''example.com'' {} []
        ''https://other.org/d'' = Inr []"
    by (simp add: visit_anchor_def example_web_def is_web_url_def)
  then show ?thesis using example_crawl_result m by blast
qed

text \<open>
  C9, as amended. No hyperlink whose resolved URL has a fragment, is a \<^verbatim>\<open>mailto:\<close> or
  \<^verbatim>\<open>tel:\<close> URL, or ends in \<^verbatim>\<open>.pdf\<close>, \<^verbatim>\<open>.jpg\<close>, \<^verbatim>\<open>.png\<close>, \<^verbatim>\<open>.gif\<close>, \<^verbatim>\<open>.css\<close> or \<^verbatim>\<open>.js\<close> is ever
  appended to the frontier, and the frontier holds such a URL only when it is the seed
  itself and no iteration has run yet: the seed is put into the frontier unfiltered.
\<close>

theorem frontier_links_filtered:
  "(\<forall>n. \<forall>u \<in> set (to_visit (crawl_steps w max_pages sd base n (initial_state seed))).
        non_content u \<longrightarrow>
          u = seed \<and> crawl_steps w max_pages sd base n (initial_state seed) = initial_state seed)
   \<and> (\<forall>u \<in> set (to_visit (crawl_loop w max_pages sd base (initial_state seed))).
        non_content u \<longrightarrow>
          u = seed \<and> crawl_loop w max_pages sd base (initial_state seed) = initial_state seed)
   \<and> (\<forall>current_url href full vis frontier.
        urljoin w current_url href = Inr full \<and> non_content full \<longrightarrow>
          visit_anchor w current_url sd base vis frontier href = Inr frontier
          \<or> (\<exists>e. visit_anchor w current_url sd base vis frontier href = Inl e))
   \<and> (\<forall>current_url vis frontier hs u.
        non_content u \<and> u \<notin> set frontier \<longrightarrow>
          u \<notin> set (visit_anchors w current_url sd base vis frontier hs))"
proof -
  have key: "s = initial_state seed \<or> (\<forall>u \<in> set (to_visit s). link_ok u) \<Longrightarrow>
      \<forall>u \<in> set (to_visit s). non_content u \<longrightarrow> u = seed \<and> s = initial_state seed" for s
  proof (intro ballI impI)
    fix u assume inv: "s = initial_state seed \<or> (\<forall>u \<in> set (to_visit s). link_ok u)"
      and u: "u \<in> set (to_visit s)" and nc: "non_content u"
    have "\<not> link_ok u" using nc by (rule non_content_not_ok)
    then have "s = initial_state seed" using inv u by blast
    then show "u = seed \<and> s = initial_state seed"
      using u by (simp add: initial_state_def)
  qed
  have a: "\<forall>n. \<forall>u \<in> set (to_visit (crawl_steps w max_pages sd base n (initial_state seed))).
        non_content u \<longrightarrow>
          u = seed \<and> crawl_steps w max_pages sd base n (initial_state seed) = initial_state seed"
  proof
    fix n
    show "\<forall>u \<in> set (to_visit (crawl_steps w max_pages sd base n (initial_state seed))).
        non_content u \<longrightarrow>
          u = seed \<and> crawl_steps w max_pages sd base n (initial_state seed) = initial_state seed"
      by (rule key) (rule frontier_filtered_steps)
  qed
  have b: "\<forall>u \<in> set (to_visit (crawl_loop w max_pages sd base (initial_state seed))).
        non_content u \<longrightarrow>
          u = seed \<and> crawl_loop w max_pages sd base (initial_state seed) = initial_state seed"
    by (rule key) (rule frontier_filtered_final)
  have c: "\<forall>current_url href full vis frontier.
        urljoin w current_url href = Inr full \<and> non_content full \<longrightarrow>
          visit_anchor w current_url sd base vis frontier href = Inr frontier
          \<or> (\<exists>e. visit_anchor w current_url sd base vis frontier href = Inl e)"
  proof (intro allI impI, elim conjE)
    fix current_url href full vis frontier
    assume "urljoin w current_url href = Inr full" and "non_content full"
    then show "visit_anchor w current_url sd base vis frontier href = Inr frontier
          \<or> (\<exists>e. visit_anchor w current_url sd base vis frontier href = Inl e)"
      by (intro not_ok_discarded non_content_not_ok)
  qed
  have d: "\<forall>current_url vis frontier hs u.
        non_content u \<and> u \<notin> set frontier \<longrightarrow>
          u \<notin> set (visit_anchors w current_url sd base vis frontier hs)"
  proof (intro allI impI, elim conjE)
    fix current_url vis frontier hs u
    assume nc: "non_content u" and nf: "u \<notin> set frontier"
    show "u \<notin> set (visit_anchors w current_url sd base vis frontier hs)"
    proof
      assume "u \<in> set (visit_anchors w current_url sd base vis frontier hs)"
      then have "u \<in> set frontier \<or> (link_ok u \<and> u \<notin> vis \<and> (sd \<longrightarrow> netloc w u = Inr base))"
        by (rule visit_anchors_new)
      then show False using nf non_content_not_ok [OF nc] by blast
    qed
  qed
  show ?thesis by (intro conjI a b c d)
qed

lemma example_first_step:
  "to_visit (crawl_steps example_web 10 True ''example.com'' 1 (initial_state ''https://example.com/''))
     = [''https://example.com/b'', ''https://example.com/c'']"
  by code_simp

lemma example_pdf_link:
  "urljoin example_web ''https://example.com/'' ''/doc.pdf'' = Inr ''https://example.com/doc.pdf''
   \<and> non_content ''https://example.com/doc.pdf''
   \<and> visit_anchor example_web ''https://example.com/'' True ''example.com'' {} [] ''/doc.pdf'' = Inr []"
  by code_simp

theorem frontier_links_filtered_witness:
  "urljoin example_web ''https://example.com/'' ''/doc.pdf'' = Inr ''https://example.com/doc.pdf''
   \<and> non_content ''https://example.com/doc.pdf''
   \<and> visit_anchor example_web ''https://example.com/'' True ''example.com'' {} [] ''/doc.pdf'' = Inr []
   \<and> to_visit (crawl_steps example_web 10 True ''example.com'' 1 (initial_state ''https://example.com/''))
     = [''https://example.com/b'', ''https://example.com/c'']
   \<and> \<not> non_content ''https://example.com/b'' \<and> \<not> non_content ''https://example.com/c''"
proof -
  let ?S = "\<lambda>n. crawl_steps example_web 10 True ''example.com'' n (initial_state ''https://example.com/'')"
  have "\<forall>n. \<forall>u \<in> set (to_visit (?S n)). non_content u \<longrightarrow>
          u = ''https://example.com/'' \<and> ?S n = initial_state ''https://example.com/''"
    by (rule frontier_links_filtered [THEN conjunct1])
  then have "\<forall>u \<in> set (to_visit (?S 1)). non_content u \<longrightarrow> u = ''https://example.com/''"
    by blast
  then have "\<forall>u \<in> set [''https://example.com/b'', ''https://example.com/c'']. non_content u \<longrightarrow>
          u = ''https://example.com/''"
    by (simp only: example_first_step)
  then have "\<not> non_content ''https://example.com/b'' \<and> \<not> non_content ''https://example.com/c''"
    by simp
  then show ?thesis using example_pdf_link example_first_step by blast
qed

text \<open>
  The claim as stated fails at the start of a crawl whose seed is such a URL: the seed
  \<^verbatim>\<open>https://example.com/#top\<close> is the resolved URL of the fragment-only link \<^verbatim>\<open>#top\<close> on its
  own page, and the frontier contains it before the first iteration.
\<close>

theorem frontier_links_filtered_counterexample:
  "to_visit (crawl_steps example_web 10 True ''example.com'' 0
       (initial_state (normalize_seed ''https://example.com/#top'')))
     = [''https://example.com/#top'']
   \<and> non_content ''https://example.com/#top''
   \<and> fetch example_web ''https://example.com/#top'' = Inr example_home
   \<and> ''#top'' \<in> set (hrefs example_home)
   \<and> urljoin example_web ''https://example.com/#top'' ''#top'' = Inr ''https://example.com/#top''"
  by (simp add: initial_state_def normalize_seed_def is_web_url_def non_content_def example_web_def
      example_home_def example_document_def)

text \<open>
  C10. The skip patterns are tested as substrings of the lower-cased absolute URL: a
  link whose lower-cased URL contains \<^verbatim>\<open>.pdf\<close>, \<^verbatim>\<open>.jpg\<close>, \<^verbatim>\<open>.png\<close>, \<^verbatim>\<open>.gif\<close>, \<^verbatim>\<open>.css\<close>, \<^verbatim>\<open>.js\<close>,
  \<^verbatim>\<open>#\<close>, \<^verbatim>\<open>mailto:\<close> or \<^verbatim>\<open>tel:\<close> anywhere is discarded (the pass of the loop leaves the
  frontier as it was, or raises), the loop over a page's anchors never adds it, and no
  frontier of the crawl contains it after the start. So \<^verbatim>\<open>https://example.com/c#intro\<close> and
  \<^verbatim>\<open>https://example.com/data.json\<close> are excluded.
\<close>

theorem link_filter_substring:
  assumes "urljoin w current_url href = Inr full"
    and "list_ex (\<lambda>p. sublist p (lower full)) skip_patterns"
  shows "(visit_anchor w current_url sd base vis frontier href = Inr frontier
          \<or> (\<exists>e. visit_anchor w current_url sd base vis frontier href = Inl e))
       \<and> (full \<notin> set frontier \<longrightarrow> full \<notin> set (visit_anchors w page_url sd base vis frontier hs))
       \<and> (\<forall>n. full \<in> set (to_visit (crawl_steps w max_pages sd base n (initial_state seed))) \<longrightarrow>
              full = seed \<and> crawl_steps w max_pages sd base n (initial_state seed) = initial_state seed)"
proof -
  have bad: "\<not> link_ok full"
    using assms(2) by (simp add: link_ok_def contains_iff_sublist)
  have a: "visit_anchor w current_url sd base vis frontier href = Inr frontier
          \<or> (\<exists>e. visit_anchor w current_url sd base vis frontier href = Inl e)"
    using assms(1) bad by (rule not_ok_discarded)
  have b: "full \<notin> set frontier \<longrightarrow> full \<notin> set (visit_anchors w page_url sd base vis frontier hs)"
    using visit_anchors_new bad by blast
  have c: "\<forall>n. full \<in> set (to_visit (crawl_steps w max_pages sd base n (initial_state seed))) \<longrightarrow>
              full = seed \<and> crawl_steps w max_pages sd base n (initial_state seed) = initial_state seed"
  proof (intro allI impI)
    fix n assume m: "full \<in> set (to_visit (crawl_steps w max_pages sd base n (initial_state seed)))"
    then have "crawl_steps w max_pages sd base n (initial_state seed) = initial_state seed"
      using frontier_filtered_steps [of w max_pages sd base n seed] bad by blast
    then show "full = seed \<and> crawl_steps w max_pages sd base n (initial_state seed) = initial_state seed"
      using m by (simp add: initial_state_def)
  qed
  show ?thesis using a b c by blast
qed

lemma example_json_link:
  "urljoin example_web ''https://example.com/'' ''/data.json'' = Inr ''https://example.com/data.json''
   \<and> visit_anchor example_web ''https://example.com/'' True ''example.com'' {} [] ''/data.json'' = Inr []
   \<and> urljoin example_web ''https://example.com/'' ''/c#intro'' = Inr ''https://example.com/c#intro''
   \<and> visit_anchor example_web ''https://example.com/'' True ''example.com'' {} [] ''/c#intro'' = Inr []
   \<and> visit_anchor example_web ''https://example.com/'' True ''example.com'' {} [] ''/c''
       = Inr [''https://example.com/c'']"
  by code_simp

lemma example_json_pattern:
  "list_ex (\<lambda>p. contains p (lower ''https://example.com/data.json'')) skip_patterns
   \<and> list_ex (\<lambda>p. contains p (lower ''https://example.com/c#intro'')) skip_patterns
   \<and> \<not> suffix ''.js'' ''https://example.com/data.json''"
  by code_simp

theorem link_filter_substring_witness:
  "urljoin example_web ''https://example.com/'' ''/data.json'' = Inr ''https://example.com/data.json''
   \<and> list_ex (\<lambda>p. sublist p (lower ''https://example.com/data.json'')) skip_patterns
   \<and> \<not> suffix ''.js'' ''https://example.com/data.json''
   \<and> visit_anchor example_web ''https://example.com/'' True ''example.com'' {} [] ''/data.json'' = Inr []
   \<and> visit_anchor example_web ''https://example.com/'' True ''example.com'' {} [] ''/c#intro'' = Inr []
   \<and> visit_anchor example_web ''https://example.com/'' True ''example.com'' {} [] ''/c''
       = Inr [''https://example.com/c'']
   \<and> ''https://example.com/data.json''
       \<notin> set (visit_anchors example_web ''https://example.com/'' True ''example.com'' {} []
                (hrefs example_home))"
proof -
  have j: "urljoin example_web ''https://example.com/'' ''/data.json'' = Inr ''https://example.com/data.json''"
    using example_json_link by (rule conjunct1)
  have pj: "list_ex (\<lambda>p. sublist p (lower ''https://example.com/data.json'')) skip_patterns"
    using example_json_pattern [THEN conjunct1] by (simp only: contains_iff_sublist)
  have "''https://example.com/data.json'' \<notin> set []
        \<longrightarrow> ''https://example.com/data.json''
              \<notin> set (visit_anchors example_web ''https://example.com/'' True ''example.com'' {} []
                       (hrefs example_home))"
    by (rule link_filter_substring [OF j pj, THEN conjunct2, THEN conjunct1])
  then have "''https://example.com/data.json''
       \<notin> set (visit_anchors example_web ''https://example.com/'' True ''example.com'' {} []
                (hrefs example_home))"
    by simp
  then show ?thesis using j pj example_json_pattern example_json_link by blast
qed

end
